theory Spec2Isabelle
  imports Main
begin

section \<open>Token model\<close>

text \<open>
  Lexical types are hierarchical tags. A tag is the path from the root of the
  hierarchy, so \<open>Keyword.DML\<close> is \<open>[''Keyword'', ''DML'']\<close>; a tag is a
  subtype of another when the other is a prefix of it. Groups carry no lexical
  type (Python's \<open>None\<close>), hence the option.
\<close>

type_synonym ttype = "string list"

definition T_Whitespace :: ttype where "T_Whitespace = [''Text'', ''Whitespace'']"
definition T_Newline :: ttype where "T_Newline = [''Text'', ''Whitespace'', ''Newline'']"
definition T_Keyword :: ttype where "T_Keyword = [''Keyword'']"
definition T_DML :: ttype where "T_DML = [''Keyword'', ''DML'']"
definition T_DDL :: ttype where "T_DDL = [''Keyword'', ''DDL'']"
definition T_CTE :: ttype where "T_CTE = [''Keyword'', ''CTE'']"
definition T_Order :: ttype where "T_Order = [''Keyword'', ''Order'']"
definition T_TZCast :: ttype where "T_TZCast = [''Keyword'', ''TZCast'']"
definition T_Name :: ttype where "T_Name = [''Name'']"
definition T_Builtin :: ttype where "T_Builtin = [''Name'', ''Builtin'']"
definition T_Placeholder :: ttype where "T_Placeholder = [''Name'', ''Placeholder'']"
definition T_Number :: ttype where "T_Number = [''Literal'', ''Number'']"
definition T_Integer :: ttype where "T_Integer = [''Literal'', ''Number'', ''Integer'']"
definition T_Float :: ttype where "T_Float = [''Literal'', ''Number'', ''Float'']"
definition T_String :: ttype where "T_String = [''Literal'', ''String'']"
definition T_Single :: ttype where "T_Single = [''Literal'', ''String'', ''Single'']"
definition T_Symbol :: ttype where "T_Symbol = [''Literal'', ''String'', ''Symbol'']"
definition T_Punctuation :: ttype where "T_Punctuation = [''Punctuation'']"
definition T_Operator :: ttype where "T_Operator = [''Operator'']"
definition T_Comparison :: ttype where "T_Comparison = [''Operator'', ''Comparison'']"
definition T_Wildcard :: ttype where "T_Wildcard = [''Wildcard'']"
definition T_Comment :: ttype where "T_Comment = [''Comment'']"
definition T_Assignment :: ttype where "T_Assignment = [''Assignment'']"

lemmas ttype_defs =
  T_Whitespace_def T_Newline_def T_Keyword_def T_DML_def T_DDL_def T_CTE_def
  T_Order_def T_TZCast_def T_Name_def T_Builtin_def T_Placeholder_def
  T_Number_def T_Integer_def T_Float_def T_String_def T_Single_def T_Symbol_def
  T_Punctuation_def T_Operator_def T_Comparison_def T_Wildcard_def
  T_Comment_def T_Assignment_def

datatype kind =
    Statement | StatementSelect | StatementInsert | StatementUnion
  | Parenthesis | SquareBrackets | Case | If | For | Begin
  | Function | WindowFunction | Identifier | SignedIdentifier | IdentifierList
  | Operation | Comparison | Assignment | TypedLiteral | ConditionsList
  | Comment | SubQuery | Values
  | ClauseWhere | ClauseFrom | ClauseWith | ClauseInsert
  | ClauseGroupBy | ClauseOrderBy | ClausePartitionBy | SelectProjection

record gattrs =
  is_codeBlockDelimiter :: bool
  is_subQuery :: bool
  conditions_count :: int

text \<open>
  A token is either a lexical unit (type tag and verbatim text) or a group with
  a kind, its annotations and its ordered children.
\<close>

datatype token =
    Token ttype string
  | TokenList kind gattrs "token list"

text \<open>
  Modelled from the spec: the attributes of \<open>sql.Token\<close> and \<open>sql.TokenList\<close>
  (the module \<open>sql\<close> is not among the sources). A group has no lexical type,
  and its value is the concatenation of the values of its leaves in order.
\<close>

fun ttype_of :: "token \<Rightarrow> ttype option" where
  "ttype_of (Token t v) = Some t"
| "ttype_of (TokenList k a ts) = None"

fun flatten :: "token \<Rightarrow> token list" where
  "flatten (Token t v) = [Token t v]"
| "flatten (TokenList k a ts) = concat (map flatten ts)"

fun value_of :: "token \<Rightarrow> string" where
  "value_of (Token t v) = v"
| "value_of (TokenList k a ts) = concat (map value_of ts)"

section \<open>Python values: errors, indices, slices\<close>

datatype error =
    SQLParseError string
  | IndexError
  | TypeError
  | ValueError
  | AttributeError

text \<open>\<open>xs[i]\<close>: a negative index counts from the end; out of range raises.\<close>

definition py_item :: "'a list \<Rightarrow> int \<Rightarrow> error + 'a" where
  "py_item xs i =
     (if 0 \<le> i \<and> i < int (length xs) then Inr (xs ! nat i)
      else if i < 0 \<and> - int (length xs) \<le> i then Inr (xs ! nat (int (length xs) + i))
      else Inl IndexError)"

text \<open>Bound of a slice: negative counts from the end, then clipped to the list.\<close>

definition py_bound :: "'a list \<Rightarrow> int \<Rightarrow> nat" where
  "py_bound xs i =
     (if i < 0 then nat (int (length xs) + i) else min (nat i) (length xs))"

text \<open>\<open>xs[a:b]\<close>, \<open>xs[a:b] = ys\<close> and \<open>del xs[a:b]\<close>.\<close>

definition py_slice :: "'a list \<Rightarrow> int \<Rightarrow> int \<Rightarrow> 'a list" where
  "py_slice xs a b = (let i = py_bound xs a; j = py_bound xs b in take (j - i) (drop i xs))"

definition py_slice_set :: "'a list \<Rightarrow> int \<Rightarrow> int \<Rightarrow> 'a list \<Rightarrow> 'a list" where
  "py_slice_set xs a b ys =
     (let i = py_bound xs a; j = py_bound xs b in take i xs @ ys @ drop (max i j) xs)"

definition py_slice_del :: "'a list \<Rightarrow> int \<Rightarrow> int \<Rightarrow> 'a list" where
  "py_slice_del xs a b = py_slice_set xs a b []"

lemma py_bound_int: "py_bound xs (int n) = min n (length xs)"
  by (simp add: py_bound_def)

lemma py_bound_int1: "py_bound xs (int n + 1) = min (Suc n) (length xs)"
proof -
  have "nat (int n + 1) = Suc n" by simp
  then show ?thesis by (simp add: py_bound_def)
qed

lemma py_bound_le: "py_bound xs i \<le> length xs"
proof (cases "i < 0")
  case True
  then have "nat (int (length xs) + i) \<le> length xs" by arith
  with True show ?thesis by (simp add: py_bound_def)
next
  case False
  then show ?thesis by (simp add: py_bound_def)
qed

section \<open>Token predicates and matching\<close>

text \<open>\<open>ttype in T.X\<close>: the tag is \<open>T.X\<close> or below it; \<open>None\<close> is in no tag.\<close>

fun subtype :: "ttype option \<Rightarrow> ttype \<Rightarrow> bool" where
  "subtype None p = False"
| "subtype (Some t) p = (take (length p) t = p)"

definition is_whitespace :: "token \<Rightarrow> bool" where
  "is_whitespace tk = subtype (ttype_of tk) T_Whitespace"

definition is_keyword :: "token \<Rightarrow> bool" where
  "is_keyword tk = subtype (ttype_of tk) T_Keyword"

fun is_group :: "token \<Rightarrow> bool" where
  "is_group (Token t v) = False"
| "is_group (TokenList k a ts) = True"

text \<open>\<open>isinstance(token, cls)\<close> for a tuple of group classes.\<close>

fun isinstance :: "token \<Rightarrow> kind list \<Rightarrow> bool" where
  "isinstance (Token t v) ks = False"
| "isinstance (TokenList k a ts) ks = (k \<in> set ks)"

fun tokens_of :: "token \<Rightarrow> token list" where
  "tokens_of (Token t v) = []"
| "tokens_of (TokenList k a ts) = ts"

fun attrs_of :: "token \<Rightarrow> gattrs" where
  "attrs_of (Token t v) = \<lparr>is_codeBlockDelimiter = False, is_subQuery = False, conditions_count = 0\<rparr>"
| "attrs_of (TokenList k a ts) = a"

definition upper_char :: "char \<Rightarrow> char" where
  "upper_char c =
     (let n = (of_char c :: nat) in if 97 \<le> n \<and> n \<le> 122 then char_of (n - 32) else c)"

definition upper :: "string \<Rightarrow> string" where
  "upper s = map upper_char s"

definition normalized :: "token \<Rightarrow> string" where
  "normalized tk = (if is_keyword tk then upper (value_of tk) else value_of tk)"

fun starts_with :: "string \<Rightarrow> string \<Rightarrow> bool" where
  "starts_with [] s = True"
| "starts_with (p # ps) [] = False"
| "starts_with (p # ps) (c # cs) = (p = c \<and> starts_with ps cs)"

fun contains :: "string \<Rightarrow> string \<Rightarrow> bool" where
  "contains p [] = (p = [])"
| "contains p (c # cs) = (starts_with p (c # cs) \<or> contains p cs)"

definition is_word_char :: "char \<Rightarrow> bool" where
  "is_word_char c =
     (let n = (of_char c :: nat)
      in (48 \<le> n \<and> n \<le> 57) \<or> (65 \<le> n \<and> n \<le> 90) \<or> (97 \<le> n \<and> n \<le> 122) \<or> n = 95)"

definition is_space_char :: "char \<Rightarrow> bool" where
  "is_space_char c = (let n = (of_char c :: nat) in n = 32 \<or> (9 \<le> n \<and> n \<le> 13))"

text \<open>
  The values of a matcher. A plain word stands for itself: compared for equality
  when the matcher is literal, searched as a substring when the matcher is a
  regular expression (the words of the source hold no metacharacter). The two
  composite expressions of the walker, \<open>join_words\<close> and \<open>by_words\<close>, are
  values of their own.
\<close>

datatype pattern = Word string | Join_words | By_words

text \<open>
  \<open>join_words\<close> is \<open>(prefixes)?JOIN\b\<close> with every prefix optional, so a search
  succeeds exactly when the subject holds \<open>JOIN\<close> ending at a word boundary.
\<close>

fun search_word_b :: "string \<Rightarrow> string \<Rightarrow> bool" where
  "search_word_b p [] = False"
| "search_word_b p (c # cs) =
     ((starts_with p (c # cs) \<and>
        (case drop (length p) (c # cs) of [] \<Rightarrow> True | d # ds \<Rightarrow> \<not> is_word_char d))
      \<or> search_word_b p cs)"

text \<open>\<open>by_words\<close> is \<open>(GROUP|ORDER)\s+BY\b\<close>.\<close>

definition by_at :: "string \<Rightarrow> bool" where
  "by_at s =
     (let r = dropWhile is_space_char s
      in s \<noteq> [] \<and> is_space_char (hd s) \<and> starts_with ''BY'' r \<and>
         (case drop 2 r of [] \<Rightarrow> True | d # ds \<Rightarrow> \<not> is_word_char d))"

fun search_by :: "string \<Rightarrow> bool" where
  "search_by [] = False"
| "search_by (c # cs) =
     ((starts_with ''GROUP'' (c # cs) \<and> by_at (drop 5 (c # cs)))
      \<or> (starts_with ''ORDER'' (c # cs) \<and> by_at (drop 5 (c # cs)))
      \<or> search_by cs)"

text \<open>
  \<open>pattern.search(normalized)\<close>; with \<open>re.IGNORECASE\<close> (keywords) both sides
  are compared in upper case.
\<close>

fun re_search :: "bool \<Rightarrow> pattern \<Rightarrow> string \<Rightarrow> bool" where
  "re_search ic (Word w) s = (if ic then contains (upper w) (upper s) else contains w s)"
| "re_search ic Join_words s = (if ic then search_word_b ''JOIN'' (upper s) else search_word_b ''JOIN'' s)"
| "re_search ic By_words s = (if ic then search_by (upper s) else search_by s)"

fun pattern_text :: "pattern \<Rightarrow> string" where
  "pattern_text (Word w) = w"
| "pattern_text Join_words = ''JOIN''"
| "pattern_text By_words = ''BY''"

text \<open>A matcher: lexical type, values (or none), and the regex flag.\<close>

datatype matcher = Matcher ttype "pattern list option" bool

text \<open>
  Modelled from the spec: \<open>Token.match(ttype, values, regex)\<close>, true iff the
  token's lexical type is a subtype of the given tag and, when values are
  supplied, the token's value (case-folded for keywords) is among them, or is
  found by one of them when they are regular expressions. A group has no
  lexical type and matches nothing.
\<close>

fun match :: "token \<Rightarrow> matcher \<Rightarrow> bool" where
  "match tk (Matcher ty None rx) = subtype (ttype_of tk) ty"
| "match tk (Matcher ty (Some vs) rx) =
     (if \<not> subtype (ttype_of tk) ty then False
      else if rx then (\<exists>p \<in> set vs. re_search (is_keyword tk) p (normalized tk))
      else if is_keyword tk then normalized tk \<in> set (map (upper \<circ> pattern_text) vs)
      else normalized tk \<in> set (map pattern_text vs))"

text \<open>
  The \<open>t\<close> criterion of \<open>imt\<close>: Python's \<open>ttype in t\<close> is the subtype test when
  \<open>t\<close> is one tag and membership when \<open>t\<close> is a tuple of tags.
\<close>

datatype tspec = TNone | TOne ttype | TTuple "ttype list"

fun t_holds :: "ttype option \<Rightarrow> tspec \<Rightarrow> bool" where
  "t_holds ty TNone = False"
| "t_holds ty (TOne p) = subtype ty p"
| "t_holds None (TTuple ps) = False"
| "t_holds (Some t) (TTuple ps) = (t \<in> set ps)"

text \<open>
  Modelled from the spec: \<open>imt(token, i, m, t)\<close> (module \<open>utils\<close> is not among the
  sources): a token satisfies it iff it satisfies any supplied criterion;
  \<open>None\<close> satisfies none.
\<close>

record crit =
  c_i :: "kind list"
  c_m :: "matcher list"
  c_t :: tspec

definition imt :: "token \<Rightarrow> crit \<Rightarrow> bool" where
  "imt tk c = (isinstance tk (c_i c) \<or> (\<exists>m \<in> set (c_m c). match tk m) \<or> t_holds (ttype_of tk) (c_t c))"

definition imt_opt :: "token option \<Rightarrow> crit \<Rightarrow> bool" where
  "imt_opt tko c = (case tko of None \<Rightarrow> False | Some tk \<Rightarrow> imt tk c)"

definition by_i :: "kind list \<Rightarrow> crit" where
  "by_i ks = \<lparr>c_i = ks, c_m = [], c_t = TNone\<rparr>"

definition by_m :: "matcher list \<Rightarrow> crit" where
  "by_m ms = \<lparr>c_i = [], c_m = ms, c_t = TNone\<rparr>"

definition by_t :: "tspec \<Rightarrow> crit" where
  "by_t t = \<lparr>c_i = [], c_m = [], c_t = t\<rparr>"

section \<open>TokenList primitives\<close>

text \<open>
  Modelled from the spec: the search primitives of \<open>sql.TokenList\<close> (not among
  the sources). Positions are indices into the child list. A search result is
  \<open>Some (idx, token)\<close>, and \<open>None\<close> stands for Python's \<open>(None, None)\<close>.
  \<open>find_fwd P j xs\<close> scans \<open>xs\<close>, whose first element has index \<open>j\<close>;
  \<open>find_bwd P ts n\<close> scans the indices \<open>n - 1\<close> down to \<open>0\<close>.
\<close>

fun find_fwd :: "(token \<Rightarrow> bool) \<Rightarrow> nat \<Rightarrow> token list \<Rightarrow> (nat \<times> token) option" where
  "find_fwd P j [] = None"
| "find_fwd P j (x # xs) = (if P x then Some (j, x) else find_fwd P (Suc j) xs)"

fun find_bwd :: "(token \<Rightarrow> bool) \<Rightarrow> token list \<Rightarrow> nat \<Rightarrow> (nat \<times> token) option" where
  "find_bwd P ts 0 = None"
| "find_bwd P ts (Suc n) =
     (if n < length ts \<and> P (ts ! n) then Some (n, ts ! n) else find_bwd P ts n)"

text \<open>
  \<open>_token_matching(funcs, start, reverse)\<close>: forwards over \<open>range(start, len)\<close>,
  backwards over \<open>range(start - 2, -1, -1)\<close>.
\<close>

definition token_matching :: "(token \<Rightarrow> bool) \<Rightarrow> token list \<Rightarrow> nat \<Rightarrow> bool \<Rightarrow> (nat \<times> token) option" where
  "token_matching P ts start reverse =
     (if reverse then find_bwd P ts (start - 1) else find_fwd P start (drop start ts))"

text \<open>
  \<open>token_next_by(i, m, t, idx, reverse)\<close>: the search starts after \<open>idx\<close>
  (\<open>idx += 1\<close>); the default \<open>idx\<close> is \<open>-1\<close>, written \<open>token_first_by\<close>.
\<close>

definition token_next_by :: "token list \<Rightarrow> crit \<Rightarrow> nat \<Rightarrow> (nat \<times> token) option" where
  "token_next_by ts c idx = token_matching (\<lambda>tk. imt tk c) ts (idx + 1) False"

definition token_first_by :: "token list \<Rightarrow> crit \<Rightarrow> (nat \<times> token) option" where
  "token_first_by ts c = token_matching (\<lambda>tk. imt tk c) ts 0 False"

definition token_prev_by :: "token list \<Rightarrow> crit \<Rightarrow> nat \<Rightarrow> (nat \<times> token) option" where
  "token_prev_by ts c idx = token_matching (\<lambda>tk. imt tk c) ts (idx + 1) True"

text \<open>
  \<open>token_next(idx, skip_ws, skip_cm, reverse)\<close>: the neighbour that is not
  skipped. A comment is a \<open>Comment\<close> group or a token typed \<open>Comment\<close>.
\<close>

definition not_skipped :: "bool \<Rightarrow> bool \<Rightarrow> token \<Rightarrow> bool" where
  "not_skipped skip_ws skip_cm tk =
     (\<not> ((skip_ws \<and> is_whitespace tk) \<or>
         (skip_cm \<and> imt tk \<lparr>c_i = [Comment], c_m = [], c_t = TOne T_Comment\<rparr>)))"

definition token_next_gen :: "token list \<Rightarrow> nat \<Rightarrow> bool \<Rightarrow> bool \<Rightarrow> bool \<Rightarrow> (nat \<times> token) option" where
  "token_next_gen ts idx skip_ws skip_cm reverse =
     token_matching (not_skipped skip_ws skip_cm) ts (idx + 1) reverse"

text \<open>The defaults: \<open>token_next(idx)\<close> skips whitespace and comments.\<close>

definition token_next :: "token list \<Rightarrow> nat \<Rightarrow> (nat \<times> token) option" where
  "token_next ts idx = token_next_gen ts idx True True False"

text \<open>
  \<open>token_prev(idx, skip_ws, skip_cm)\<close> is \<open>token_next\<close> in reverse. Its
  \<open>skip_cm\<close> defaults to false: \<open>group_comments\<close> steps back from the end of a
  run of comments with \<open>token_prev(eidx, skip_ws=False)\<close> and has to land on
  the last comment of the run.
\<close>

definition token_prev_gen :: "token list \<Rightarrow> nat \<Rightarrow> bool \<Rightarrow> bool \<Rightarrow> (nat \<times> token) option" where
  "token_prev_gen ts idx skip_ws skip_cm = token_next_gen ts idx skip_ws skip_cm True"

definition token_prev :: "token list \<Rightarrow> nat \<Rightarrow> (nat \<times> token) option" where
  "token_prev ts idx = token_prev_gen ts idx True False"

text \<open>
  The annotations of a freshly built group. The starting value of
  \<open>conditions_count\<close> is set by the constructor of \<open>ConditionsList\<close>, which is
  not among the sources; it is the parameter \<open>cc0\<close>.
\<close>

definition new_attrs :: "int \<Rightarrow> gattrs" where
  "new_attrs cc0 = \<lparr>is_codeBlockDelimiter = False, is_subQuery = False, conditions_count = cc0\<rparr>"

text \<open>
  Modelled from the spec: \<open>group_tokens(kind, from_idx, to_idx, extend)\<close>
  replaces the slice \<open>[from_idx..=to_idx]\<close> by a new group of that kind holding
  the slice; with \<open>extend\<close>, when the child at \<open>from_idx\<close> already has the
  kind, the rest of the span is appended to that child instead. The slice is a
  Python slice \<open>tokens[start : end + 1]\<close>; reading \<open>tokens[start]\<close> out of range
  raises. The result is the new child list.
\<close>

definition group_tokens ::
  "int \<Rightarrow> token list \<Rightarrow> kind \<Rightarrow> nat \<Rightarrow> int \<Rightarrow> bool \<Rightarrow> error + token list" where
  "group_tokens cc0 ts cls start end ext =
     (if length ts \<le> start then Inl IndexError
      else
        let st = ts ! start; end_idx = end + 1 in
        if ext \<and> isinstance st [cls] then
          (let subtokens = py_slice ts (int start + 1) end_idx;
               grp = TokenList cls (attrs_of st) (tokens_of st @ subtokens)
           in Inr (py_slice_del (ts[start := grp]) (int start + 1) end_idx))
        else
          (let subtokens = py_slice ts (int start) end_idx;
               grp = TokenList cls (new_attrs cc0) subtokens
           in Inr (py_slice_set ts (int start) end_idx [grp])))"

section \<open>Reindent walker state\<close>

text \<open>
  \<open>SSSplitterFilter.__init__\<close>: the newline string \<open>n\<close>, the indent character
  string \<open>char\<close>, and the integers \<open>offset\<close>, \<open>indent\<close>, \<open>width\<close>.
\<close>

record walker =
  w_n :: string
  w_offset :: int
  w_indent :: int
  w_width :: int
  w_char :: string

definition leading_ws :: "walker \<Rightarrow> int" where
  "leading_ws w = w_offset w + w_indent w * w_width w"

text \<open>Python's \<open>s * k\<close> on a string: \<open>k\<close> copies, none when \<open>k \<le> 0\<close>.\<close>

definition str_times :: "string \<Rightarrow> int \<Rightarrow> string" where
  "str_times s k = concat (replicate (nat k) s)"

definition nl :: "walker \<Rightarrow> int \<Rightarrow> token" where
  "nl w offs = Token T_Whitespace (w_n w @ str_times (w_char w) (max 0 (leading_ws w + offs)))"

section \<open>Facts about the search primitives\<close>

lemma find_fwd_Some:
  "find_fwd P j xs = Some (n, tk) \<Longrightarrow>
     j \<le> n \<and> n < j + length xs \<and> tk = xs ! (n - j) \<and> P tk \<and> (\<forall>k < n - j. \<not> P (xs ! k))"
proof (induction xs arbitrary: j)
  case Nil
  then show ?case by simp
next
  case (Cons x xs)
  show ?case
  proof (cases "P x")
    case True
    with Cons.prems show ?thesis by simp
  next
    case False
    with Cons.prems have r: "find_fwd P (Suc j) xs = Some (n, tk)" by simp
    from Cons.IH [OF r] have a: "Suc j \<le> n" and b: "n < Suc j + length xs"
      and c: "tk = xs ! (n - Suc j)" and d: "P tk" and e: "\<forall>k < n - Suc j. \<not> P (xs ! k)"
      by auto
    have f: "n - j = Suc (n - Suc j)" using a by arith
    have "\<forall>k < n - j. \<not> P ((x # xs) ! k)"
    proof (intro allI impI)
      fix k assume k: "k < n - j"
      show "\<not> P ((x # xs) ! k)"
      proof (cases k)
        case 0
        then show ?thesis using False by simp
      next
        case (Suc m)
        then have "m < n - Suc j" using k f by arith
        then show ?thesis using e Suc by simp
      qed
    qed
    then show ?thesis using a b c d f by simp
  qed
qed

lemma find_fwd_None: "find_fwd P j xs = None \<longleftrightarrow> (\<forall>x \<in> set xs. \<not> P x)"
  by (induction xs arbitrary: j) auto

lemma token_matching_fwd_Some:
  assumes "token_matching P ts start False = Some (n, tk)"
  shows "start \<le> n \<and> n < length ts \<and> tk = ts ! n \<and> P (ts ! n)
         \<and> (\<forall>k. start \<le> k \<and> k < n \<longrightarrow> \<not> P (ts ! k))"
proof -
  from assms have r: "find_fwd P start (drop start ts) = Some (n, tk)"
    by (simp add: token_matching_def)
  from find_fwd_Some [OF r]
  have a: "start \<le> n" and b: "n < start + length (drop start ts)"
    and c: "tk = drop start ts ! (n - start)" and d: "P tk"
    and e: "\<forall>k < n - start. \<not> P (drop start ts ! k)" by auto
  have lt: "n < length ts" using a b by simp
  have tk: "tk = ts ! n" using a c lt by simp
  have "\<forall>k. start \<le> k \<and> k < n \<longrightarrow> \<not> P (ts ! k)"
  proof (intro allI impI)
    fix k assume k: "start \<le> k \<and> k < n"
    then have "k - start < n - start" by arith
    with e have "\<not> P (drop start ts ! (k - start))" by blast
    moreover have "drop start ts ! (k - start) = ts ! k" using k lt by simp
    ultimately show "\<not> P (ts ! k)" by simp
  qed
  then show ?thesis using a lt tk d by simp
qed

lemma token_matching_fwd_None:
  assumes "token_matching P ts start False = None"
  shows "\<forall>k. start \<le> k \<and> k < length ts \<longrightarrow> \<not> P (ts ! k)"
proof (intro allI impI)
  fix k assume k: "start \<le> k \<and> k < length ts"
  from assms have "\<forall>x \<in> set (drop start ts). \<not> P x"
    by (simp add: token_matching_def find_fwd_None)
  moreover have "ts ! k \<in> set (drop start ts)"
  proof -
    have "drop start ts ! (k - start) = ts ! k" using k by simp
    moreover have "k - start < length (drop start ts)" using k by (simp; arith)
    ultimately show ?thesis by (metis nth_mem)
  qed
  ultimately show "\<not> P (ts ! k)" by blast
qed

lemma token_next_Some:
  "token_next ts idx = Some (n, tk) \<Longrightarrow>
     idx < n \<and> n < length ts \<and> tk = ts ! n \<and> not_skipped True True (ts ! n)
     \<and> (\<forall>k. idx < k \<and> k < n \<longrightarrow> \<not> not_skipped True True (ts ! k))"
  unfolding token_next_def token_next_gen_def
  by (drule token_matching_fwd_Some) auto

lemma token_next_None:
  "token_next ts idx = None \<Longrightarrow> \<forall>k. idx < k \<and> k < length ts \<longrightarrow> \<not> not_skipped True True (ts ! k)"
  unfolding token_next_def token_next_gen_def
  by (drule token_matching_fwd_None) auto

lemma token_next_by_Some:
  "token_next_by ts c idx = Some (n, tk) \<Longrightarrow>
     idx < n \<and> n < length ts \<and> tk = ts ! n \<and> imt (ts ! n) c
     \<and> (\<forall>k. idx < k \<and> k < n \<longrightarrow> \<not> imt (ts ! k) c)"
  unfolding token_next_by_def
  by (drule token_matching_fwd_Some) auto

lemma token_first_by_Some:
  "token_first_by ts c = Some (n, tk) \<Longrightarrow>
     n < length ts \<and> tk = ts ! n \<and> imt (ts ! n) c \<and> (\<forall>k < n. \<not> imt (ts ! k) c)"
  unfolding token_first_by_def
  by (drule token_matching_fwd_Some) auto

lemma token_first_by_None:
  "token_first_by ts c = None \<Longrightarrow> \<forall>k < length ts. \<not> imt (ts ! k) c"
  unfolding token_first_by_def
  by (drule token_matching_fwd_None) auto

section \<open>The pass \<open>group_values\<close>\<close>

definition M_VALUES :: matcher where
  "M_VALUES = Matcher T_Keyword (Some [Word ''VALUES'']) False"

text \<open>
  The \<open>while token\<close> loop of \<open>group_values\<close>: \<open>end_idx\<close> becomes the index of
  each \<open>Parenthesis\<close> met, and the scan moves on with \<open>token_next\<close>.
\<close>

function values_scan :: "token list \<Rightarrow> nat \<Rightarrow> token \<Rightarrow> int \<Rightarrow> int" where
  "values_scan ts tidx tok end_idx =
     (let e = (if isinstance tok [Parenthesis] then int tidx else end_idx)
      in case token_next ts tidx of
           None \<Rightarrow> e
         | Some (n, tk) \<Rightarrow> values_scan ts n tk e)"
  by pat_completeness auto
termination
proof (relation "measure (\<lambda>(ts, tidx, tok, e). length ts - tidx)")
  show "wf (measure (\<lambda>(ts, tidx, tok, e). length ts - tidx))" by simp
next
  fix ts :: "token list" and tidx :: nat and tok :: token and end_idx e :: int
    and x2 :: "nat \<times> token" and n :: nat and tk :: token
  assume "token_next ts tidx = Some x2" and "(n, tk) = x2"
  then have "token_next ts tidx = Some (n, tk)" by simp
  from token_next_Some [OF this] have "tidx < n" and "n < length ts" by auto
  then show "((ts, n, tk, e), ts, tidx, tok, end_idx)
             \<in> measure (\<lambda>(ts, tidx, tok, e). length ts - tidx)"
    by simp
qed

definition group_values :: "int \<Rightarrow> token list \<Rightarrow> error + token list" where
  "group_values cc0 ts =
     (case token_first_by ts (by_m [M_VALUES]) of
        None \<Rightarrow> Inr ts
      | Some (start_idx, tok) \<Rightarrow>
          (let end_idx = values_scan ts start_idx tok (- 1)
           in if end_idx \<noteq> - 1 then group_tokens cc0 ts Values start_idx end_idx True
              else Inr ts))"

declare values_scan.simps [simp del]

lemma find_fwd_first:
  "n < length xs \<Longrightarrow> P (xs ! n) \<Longrightarrow> (\<forall>k < n. \<not> P (xs ! k)) \<Longrightarrow>
     find_fwd P j xs = Some (j + n, xs ! n)"
proof (induction xs arbitrary: j n)
  case Nil
  then show ?case by simp
next
  case (Cons x xs)
  show ?case
  proof (cases n)
    case 0
    with Cons.prems show ?thesis by simp
  next
    case (Suc m)
    have nx: "\<not> P x" using Cons.prems(3) Suc by auto
    have m1: "m < length xs" using Cons.prems(1) Suc by simp
    have m2: "P (xs ! m)" using Cons.prems(2) Suc by simp
    have m3: "\<forall>k < m. \<not> P (xs ! k)"
    proof (intro allI impI)
      fix k assume "k < m"
      then have "Suc k < n" using Suc by simp
      with Cons.prems(3) have "\<not> P ((x # xs) ! Suc k)" by blast
      then show "\<not> P (xs ! k)" by simp
    qed
    from Cons.IH [OF m1 m2 m3, of "Suc j"] show ?thesis using nx Suc by simp
  qed
qed

lemma token_first_by_first:
  "n < length ts \<Longrightarrow> imt (ts ! n) c \<Longrightarrow> (\<forall>k < n. \<not> imt (ts ! k) c) \<Longrightarrow>
     token_first_by ts c = Some (n, ts ! n)"
  using find_fwd_first [of n ts "\<lambda>tk. imt tk c" 0]
  by (simp add: token_first_by_def token_matching_def)

lemma token_first_by_absent:
  "(\<forall>k < length ts. \<not> imt (ts ! k) c) \<Longrightarrow> token_first_by ts c = None"
  by (auto simp: token_first_by_def token_matching_def find_fwd_None in_set_conv_nth)

lemma imt_by_m_single: "imt tk (by_m [m]) = match tk m"
  by (cases tk) (simp_all add: imt_def by_m_def)

lemma paren_not_skipped: "isinstance tk [Parenthesis] \<Longrightarrow> not_skipped sw sc tk"
  by (cases tk) (simp_all add: not_skipped_def is_whitespace_def imt_def)

lemma values_scan_none:
  "(\<forall>j. i < j \<and> j < length ts \<longrightarrow> \<not> isinstance (ts ! j) [Parenthesis]) \<Longrightarrow>
     values_scan ts i tok e0 = (if isinstance tok [Parenthesis] then int i else e0)"
proof (induction ts i tok e0 rule: values_scan.induct)
  case (1 ts tidx tok end_idx)
  show ?case
  proof (cases "token_next ts tidx")
    case None
    then show ?thesis by (simp add: values_scan.simps [of ts tidx])
  next
    case (Some p)
    obtain n tk where p: "p = (n, tk)" by (cases p)
    from token_next_Some [OF Some [unfolded p]]
    have n: "tidx < n" "n < length ts" "tk = ts ! n" by auto
    have np: "\<not> isinstance tk [Parenthesis]" using "1.prems" n by blast
    have rest: "\<forall>j. n < j \<and> j < length ts \<longrightarrow> \<not> isinstance (ts ! j) [Parenthesis]"
      using "1.prems" n(1) by auto
    from "1.IH" [OF refl Some p [symmetric] rest]
    show ?thesis using np Some p by (simp add: values_scan.simps [of ts tidx])
  qed
qed

lemma values_scan_last:
  "i \<le> e \<Longrightarrow> e < length ts \<Longrightarrow> tok = ts ! i \<Longrightarrow> isinstance (ts ! e) [Parenthesis] \<Longrightarrow>
   (\<forall>j. e < j \<and> j < length ts \<longrightarrow> \<not> isinstance (ts ! j) [Parenthesis]) \<Longrightarrow>
     values_scan ts i tok e0 = int e"
proof (induction ts i tok e0 rule: values_scan.induct)
  case (1 ts tidx tok end_idx)
  show ?case
  proof (cases "tidx = e")
    case True
    then show ?thesis using values_scan_none [of e ts tok end_idx] "1.prems" by simp
  next
    case False
    then have lt: "tidx < e" using "1.prems"(1) by simp
    have ns: "not_skipped True True (ts ! e)" using "1.prems"(4) by (rule paren_not_skipped)
    show ?thesis
    proof (cases "token_next ts tidx")
      case None
      from token_next_None [OF None] lt "1.prems"(2) ns show ?thesis by blast
    next
      case (Some p)
      obtain n tk where p: "p = (n, tk)" by (cases p)
      from token_next_Some [OF Some [unfolded p]]
      have n: "tidx < n" "n < length ts" "tk = ts ! n"
        and sk: "\<forall>k. tidx < k \<and> k < n \<longrightarrow> \<not> not_skipped True True (ts ! k)" by auto
      have le: "n \<le> e"
      proof (rule ccontr)
        assume "\<not> n \<le> e"
        then have "tidx < e \<and> e < n" using lt by simp
        with sk ns show False by blast
      qed
      from "1.IH" [OF refl Some p [symmetric] le "1.prems"(2) n(3) "1.prems"(4) "1.prems"(5)]
      show ?thesis using Some p by (simp add: values_scan.simps [of ts tidx])
    qed
  qed
qed

lemma group_tokens_new:
  "s \<le> e \<Longrightarrow> e < length ts \<Longrightarrow> \<not> isinstance (ts ! s) [cls] \<Longrightarrow>
     group_tokens cc0 ts cls s (int e) ext =
       Inr (take s ts @ [TokenList cls (new_attrs cc0) (take (Suc e - s) (drop s ts))] @ drop (Suc e) ts)"
proof -
  assume a: "s \<le> e" "e < length ts" "\<not> isinstance (ts ! s) [cls]"
  show ?thesis using a
    by (simp add: group_tokens_def py_slice_def py_slice_set_def py_bound_int py_bound_int1
          Let_def max_def min_def)
qed

section \<open>Error propagation and the \<open>recurse\<close> decorator\<close>

text \<open>A raised exception ends the computation: the first \<open>Inl\<close> wins.\<close>

fun map_err :: "('a \<Rightarrow> error + 'b) \<Rightarrow> 'a list \<Rightarrow> error + 'b list" where
  "map_err f [] = Inr []"
| "map_err f (x # xs) =
     (case f x of
        Inl e \<Rightarrow> Inl e
      | Inr y \<Rightarrow> (case map_err f xs of Inl e \<Rightarrow> Inl e | Inr ys \<Rightarrow> Inr (y # ys)))"

lemma map_err_cong [fundef_cong]:
  "xs = ys \<Longrightarrow> (\<And>x. x \<in> set ys \<Longrightarrow> f x = g x) \<Longrightarrow> map_err f xs = map_err g ys"
  by (induction ys arbitrary: xs) (auto split: sum.splits)

text \<open>
  Modelled from the spec: the decorator \<open>recurse(*cls)\<close> of module \<open>utils\<close>
  (not among the sources): the wrapped pass first runs on every sublist that
  is not of one of the classes \<open>cls\<close>, then on the list itself. A pass body
  takes the kind and annotations of the list and its children and returns the
  new children.
\<close>

fun recurse ::
  "kind list \<Rightarrow> (kind \<Rightarrow> gattrs \<Rightarrow> token list \<Rightarrow> error + token list) \<Rightarrow> token \<Rightarrow> error + token" where
  "recurse cls f (Token t v) = Inr (Token t v)"
| "recurse cls f (TokenList k a ts) =
     (case map_err (\<lambda>sgroup. if is_group sgroup \<and> \<not> isinstance sgroup cls
                              then recurse cls f sgroup else Inr sgroup) ts of
        Inl e \<Rightarrow> Inl e
      | Inr ts' \<Rightarrow> (case f k a ts' of Inl e \<Rightarrow> Inl e | Inr ts'' \<Rightarrow> Inr (TokenList k a ts'')))"

section \<open>The pass \<open>group_functions\<close>\<close>

lemma group_tokens_length:
  assumes "group_tokens cc0 ts cls s (int e) ext = Inr ts'" and "s \<le> e"
  shows "length ts' \<le> length ts"
proof -
  from assms have l: "s < length ts" by (auto simp: group_tokens_def split: if_splits)
  have j: "Suc s \<le> py_bound ys (int e + 1)" if "length ys = length ts" for ys :: "token list"
    using l assms(2) that by (simp add: py_bound_int1)
  have j': "py_bound ys (int e + 1) \<le> length ts" if "length ys = length ts" for ys :: "token list"
    using that py_bound_le [of ys "int e + 1"] by simp
  show ?thesis
  proof (cases "ext \<and> isinstance (ts ! s) [cls]")
    case True
    let ?g = "TokenList cls (attrs_of (ts ! s)) (tokens_of (ts ! s) @ py_slice ts (int s + 1) (int e + 1))"
    from assms(1) True l have r: "ts' = py_slice_del (ts[s := ?g]) (int s + 1) (int e + 1)"
      by (simp add: group_tokens_def Let_def)
    have "length ts' = Suc s + (length ts - py_bound (ts[s := ?g]) (int e + 1))"
      using l j [of "ts[s := ?g]"] unfolding r
      by (simp add: py_slice_del_def py_slice_set_def Let_def py_bound_int1 max_def)
    then show ?thesis using j [of "ts[s := ?g]"] j' [of "ts[s := ?g]"] by simp
  next
    case False
    let ?g = "TokenList cls (new_attrs cc0) (py_slice ts (int s) (int e + 1))"
    from assms(1) False l have r: "ts' = py_slice_set ts (int s) (int e + 1) [?g]"
      by (auto simp: group_tokens_def Let_def)
    have "length ts' = Suc s + (length ts - py_bound ts (int e + 1))"
      using l j [of ts] unfolding r
      by (simp add: py_slice_set_def Let_def py_bound_int max_def)
    then show ?thesis using j [of ts] j' [of ts] by simp
  qed
qed

lemma group_tokens_take:
  assumes "group_tokens cc0 ts cls s e ext = Inr ts'"
  shows "take s ts' = take s ts"
proof -
  from assms have l: "s < length ts" by (auto simp: group_tokens_def split: if_splits)
  show ?thesis
  proof (cases "ext \<and> isinstance (ts ! s) [cls]")
    case True
    let ?g = "TokenList cls (attrs_of (ts ! s)) (tokens_of (ts ! s) @ py_slice ts (int s + 1) (e + 1))"
    from assms True l have r: "ts' = py_slice_del (ts[s := ?g]) (int s + 1) (e + 1)"
      by (simp add: group_tokens_def Let_def)
    show ?thesis using l unfolding r
      by (simp add: py_slice_del_def py_slice_set_def Let_def py_bound_int1 min_def)
  next
    case False
    let ?g = "TokenList cls (new_attrs cc0) (py_slice ts (int s) (e + 1))"
    from assms False l have r: "ts' = py_slice_set ts (int s) (e + 1) [?g]"
      by (auto simp: group_tokens_def Let_def)
    show ?thesis using l unfolding r
      by (simp add: py_slice_set_def Let_def py_bound_int)
  qed
qed

text \<open>
  One round of the \<open>while token\<close> loop: the neighbour after \<open>tidx\<close> (whitespace
  and comments skipped); when it is a \<open>Parenthesis\<close>, the span becomes a
  \<open>Function\<close>.
\<close>

definition functions_step :: "int \<Rightarrow> token list \<Rightarrow> nat \<Rightarrow> error + token list" where
  "functions_step cc0 ts tidx =
     (case token_next ts tidx of
        None \<Rightarrow> Inr ts
      | Some (nidx, next_tok) \<Rightarrow>
          if isinstance next_tok [Parenthesis]
          then group_tokens cc0 ts Function tidx (int nidx) False
          else Inr ts)"

lemma functions_step_length:
  "functions_step cc0 ts tidx = Inr ts' \<Longrightarrow> length ts' \<le> length ts"
proof -
  assume a: "functions_step cc0 ts tidx = Inr ts'"
  show ?thesis
  proof (cases "token_next ts tidx")
    case None
    with a show ?thesis by (simp add: functions_step_def)
  next
    case (Some p)
    obtain n tk where p: "p = (n, tk)" by (cases p)
    from token_next_Some [OF Some [unfolded p]] have le: "tidx \<le> n" by simp
    show ?thesis
    proof (cases "isinstance tk [Parenthesis]")
      case True
      with a Some p have "group_tokens cc0 ts Function tidx (int n) False = Inr ts'"
        by (simp add: functions_step_def)
      from group_tokens_length [OF this le] show ?thesis .
    next
      case False
      with a Some p show ?thesis by (simp add: functions_step_def)
    qed
  qed
qed

function functions_loop :: "int \<Rightarrow> token list \<Rightarrow> nat \<Rightarrow> error + token list" where
  "functions_loop cc0 ts tidx =
     (case functions_step cc0 ts tidx of
        Inl e \<Rightarrow> Inl e
      | Inr ts' \<Rightarrow>
          (case token_next_by ts' (by_t (TOne T_Name)) tidx of
             None \<Rightarrow> Inr ts'
           | Some (tidx', tok) \<Rightarrow> functions_loop cc0 ts' tidx'))"
  by pat_completeness auto
termination
proof (relation "measure (\<lambda>(cc0, ts, tidx). length ts - tidx)")
  show "wf (measure (\<lambda>(cc0, ts, tidx). length ts - tidx))" by simp
next
  fix cc0 :: int and ts ts' :: "token list" and tidx tidx' :: nat and tok :: token
    and p :: "nat \<times> token"
  assume s: "functions_step cc0 ts tidx = Inr ts'"
    and n: "token_next_by ts' (by_t (TOne T_Name)) tidx = Some p" and p: "(tidx', tok) = p"
  from n p have "token_next_by ts' (by_t (TOne T_Name)) tidx = Some (tidx', tok)" by simp
  from token_next_by_Some [OF this] have "tidx < tidx'" "tidx' < length ts'" by auto
  moreover from functions_step_length [OF s] have "length ts' \<le> length ts" .
  ultimately show "((cc0, ts', tidx'), cc0, ts, tidx) \<in> measure (\<lambda>(cc0, ts, tidx). length ts - tidx)"
    by simp
qed

declare functions_loop.simps [simp del]

text \<open>The body of \<open>group_functions\<close>, the function under the decorator.\<close>

definition group_functions_body :: "int \<Rightarrow> token list \<Rightarrow> error + token list" where
  "group_functions_body cc0 ts =
     (let has_create = (\<exists>tmp_token \<in> set ts. value_of tmp_token = ''CREATE'');
          has_table = (\<exists>tmp_token \<in> set ts. value_of tmp_token = ''TABLE'')
      in if has_create \<and> has_table then Inr ts
         else case token_first_by ts (by_t (TOne T_Builtin)) of
                None \<Rightarrow> Inr ts
              | Some (tidx, tok) \<Rightarrow> functions_loop cc0 ts tidx)"

definition group_functions :: "int \<Rightarrow> token \<Rightarrow> error + token" where
  "group_functions cc0 = recurse [Function] (\<lambda>k a ts. group_functions_body cc0 ts)"

lemma find_fwd_shift:
  "find_fwd P j xs = map_option (\<lambda>(n, t). (n + j, t)) (find_fwd P 0 xs)"
proof (induction xs arbitrary: j)
  case Nil
  then show ?case by simp
next
  case (Cons x xs)
  have "find_fwd P (Suc j) xs = map_option (\<lambda>(n, t). (n + Suc j, t)) (find_fwd P 0 xs)"
    by (rule Cons.IH)
  moreover have "find_fwd P (Suc 0) xs = map_option (\<lambda>(n, t). (n + Suc 0, t)) (find_fwd P 0 xs)"
    by (rule Cons.IH)
  ultimately show ?case by (cases "find_fwd P 0 xs") auto
qed

lemma token_next_suffix:
  assumes "drop p ts = b # rest" and "find_fwd (not_skipped True True) 0 rest = Some (m, par)"
  shows "token_next ts p = Some (Suc (p + m), par)"
proof -
  have "drop (Suc p) ts = rest" using assms(1) by (metis drop_Suc list.sel(3) tl_drop)
  then have "token_next ts p = find_fwd (not_skipped True True) (Suc p) rest"
    by (simp add: token_next_def token_next_gen_def token_matching_def)
  also have "\<dots> = Some (m + Suc p, par)"
    using find_fwd_shift [of "not_skipped True True" "Suc p" rest] assms(2) by simp
  finally show ?thesis by (simp add: add.commute)
qed

lemma token_next_by_exists:
  assumes "idx < p" and "p < length ts" and "imt (ts ! p) c"
  shows "\<exists>n tk. token_next_by ts c idx = Some (n, tk) \<and> n \<le> p"
proof (cases "token_next_by ts c idx")
  case None
  then have "token_matching (\<lambda>tk. imt tk c) ts (idx + 1) False = None"
    by (simp add: token_next_by_def)
  from token_matching_fwd_None [OF this] assms show ?thesis by auto
next
  case (Some q)
  obtain n tk where q: "q = (n, tk)" by (cases q)
  from token_next_by_Some [OF Some [unfolded q]]
  have "\<forall>k. idx < k \<and> k < n \<longrightarrow> \<not> imt (ts ! k) c" by simp
  with assms have "n \<le> p" by (metis not_le_imp_less)
  with Some q show ?thesis by simp
qed

lemma functions_loop_take:
  "functions_loop cc0 ts tidx = Inr r \<Longrightarrow> take tidx r = take tidx ts"
proof (induction cc0 ts tidx rule: functions_loop.induct)
  case (1 cc0 ts tidx)
  from "1.prems" obtain ts' where s: "functions_step cc0 ts tidx = Inr ts'"
    by (cases "functions_step cc0 ts tidx") (simp_all add: functions_loop.simps [of cc0 ts tidx])
  have t: "take tidx ts' = take tidx ts"
    using s by (auto simp: functions_step_def group_tokens_take split: option.splits if_splits)
  show ?case
  proof (cases "token_next_by ts' (by_t (TOne T_Name)) tidx")
    case None
    with "1.prems" s t show ?thesis by (simp add: functions_loop.simps [of cc0 ts tidx])
  next
    case (Some q)
    obtain n tk where q: "q = (n, tk)" by (cases q)
    from "1.prems" s Some q have l: "functions_loop cc0 ts' n = Inr r"
      by (simp add: functions_loop.simps [of cc0 ts tidx])
    from "1.IH" [OF s Some q [symmetric] l] have "take n r = take n ts'" .
    moreover from token_next_by_Some [OF Some [unfolded q]] have "tidx \<le> n" by simp
    ultimately have "take tidx r = take tidx ts'" by (metis min.absorb1 take_take)
    with t show ?thesis by simp
  qed
qed

lemma functions_step_total:
  "tidx < length ts \<Longrightarrow> \<exists>ts'. functions_step cc0 ts tidx = Inr ts'"
  by (auto simp: functions_step_def group_tokens_def Let_def split: option.splits)

lemma functions_loop_total:
  "tidx < length ts \<Longrightarrow> \<exists>r. functions_loop cc0 ts tidx = Inr r"
proof (induction cc0 ts tidx rule: functions_loop.induct)
  case (1 cc0 ts tidx)
  from functions_step_total [OF "1.prems"] obtain ts' where s: "functions_step cc0 ts tidx = Inr ts'"
    by blast
  show ?case
  proof (cases "token_next_by ts' (by_t (TOne T_Name)) tidx")
    case None
    with s show ?thesis by (simp add: functions_loop.simps [of cc0 ts tidx])
  next
    case (Some q)
    obtain n tk where q: "q = (n, tk)" by (cases q)
    from token_next_by_Some [OF Some [unfolded q]] have "n < length ts'" by simp
    from "1.IH" [OF s Some q [symmetric] this] s Some q
    show ?thesis by (simp add: functions_loop.simps [of cc0 ts tidx])
  qed
qed

lemma functions_loop_after_step:
  assumes "functions_step cc0 ts tidx = Inr ts'"
  shows "\<exists>r. functions_loop cc0 ts tidx = Inr r \<and> take (Suc tidx) r = take (Suc tidx) ts'
              \<and> (tidx < length ts' \<longrightarrow> tidx < length r)"
proof (cases "token_next_by ts' (by_t (TOne T_Name)) tidx")
  case None
  with assms show ?thesis by (simp add: functions_loop.simps [of cc0 ts tidx])
next
  case (Some q)
  obtain n tk where q: "q = (n, tk)" by (cases q)
  from token_next_by_Some [OF Some [unfolded q]] have n: "Suc tidx \<le> n" "n < length ts'" by auto
  have e: "functions_loop cc0 ts tidx = functions_loop cc0 ts' n"
    using assms Some q by (simp add: functions_loop.simps [of cc0 ts tidx])
  have "\<exists>r. functions_loop cc0 ts' n = Inr r" using n(2) by (rule functions_loop_total)
  then obtain r where r: "functions_loop cc0 ts' n = Inr r" by blast
  from functions_loop_take [OF r] have tk: "take n r = take n ts'" .
  then have "take (Suc tidx) r = take (Suc tidx) ts'" using n(1) by (metis min.absorb1 take_take)
  moreover have "tidx < length r"
  proof -
    have "length (take n r) = n" using tk n(2) by simp
    then show ?thesis using n(1) by simp
  qed
  ultimately show ?thesis using e r by simp
qed

lemma builtin_not_skipped: "ttype_of b = Some T_Builtin \<Longrightarrow> not_skipped True True b"
  by (cases b) (simp_all add: not_skipped_def is_whitespace_def imt_def ttype_defs)

lemma builtin_is_name: "ttype_of b = Some T_Builtin \<Longrightarrow> imt b (by_t (TOne T_Name))"
  by (cases b) (simp_all add: imt_def by_t_def ttype_defs)

lemma builtin_not_group: "ttype_of b = Some T_Builtin \<Longrightarrow> \<not> isinstance b ks"
  by (cases b) simp_all

lemma drop_Cons_nth: "drop p ts = b # rest \<Longrightarrow> p < length ts \<and> ts ! p = b"
proof -
  assume a: "drop p ts = b # rest"
  then have l: "p < length ts" by (metis drop_all list.distinct(1) not_le_imp_less)
  then have "ts ! p = hd (drop p ts)" by (simp add: hd_drop_conv_nth)
  with a l show ?thesis by simp
qed

lemma drop_mid: "length xs < i \<Longrightarrow> drop i (xs @ y # zs) = drop (i - Suc (length xs)) zs"
  by (induction xs arbitrary: i) (auto simp: drop_Cons split: nat.splits)

lemma functions_step_shift:
  assumes "tidx < p" and "drop p ts = b # rest" and "ttype_of b = Some T_Builtin"
  shows "\<exists>ts' p'. functions_step cc0 ts tidx = Inr ts' \<and> tidx < p' \<and> p' \<le> p
                  \<and> drop p' ts' = drop p ts"
proof -
  from drop_Cons_nth [OF assms(2)] have pl: "p < length ts" and pb: "ts ! p = b" by auto
  have ns: "not_skipped True True (ts ! p)" using pb assms(3) by (simp add: builtin_not_skipped)
  show ?thesis
  proof (cases "token_next ts tidx")
    case None
    from token_next_None [OF None] assms(1) pl ns show ?thesis by blast
  next
    case (Some q)
    obtain n nt where q: "q = (n, nt)" by (cases q)
    from token_next_Some [OF Some [unfolded q]]
    have n: "tidx < n" "n < length ts" "nt = ts ! n"
      and sk: "\<forall>k. tidx < k \<and> k < n \<longrightarrow> \<not> not_skipped True True (ts ! k)" by auto
    have le: "n \<le> p"
    proof (rule ccontr)
      assume "\<not> n \<le> p"
      then have "tidx < p \<and> p < n" using assms(1) by simp
      with sk ns show False by blast
    qed
    show ?thesis
    proof (cases "isinstance nt [Parenthesis]")
      case False
      then have "functions_step cc0 ts tidx = Inr ts" using Some q by (simp add: functions_step_def)
      with assms(1) show ?thesis by blast
    next
      case True
      have "n \<noteq> p" using True n(3) pb assms(3) builtin_not_group by blast
      with le have lt: "n < p" by simp
      have nn: "nat (int n + 1) = Suc n" by simp
      have tl: "tidx < length ts" using n by simp
      have s: "functions_step cc0 ts tidx =
          Inr (take tidx ts @ [TokenList Function (new_attrs cc0) (take (Suc n - tidx) (drop tidx ts))]
               @ drop (Suc n) ts)"
        using Some q True n tl
        by (simp add: functions_step_def group_tokens_def py_slice_def py_slice_set_def
              py_bound_int py_bound_int1 Let_def max_def min_def)
      let ?ts' = "take tidx ts @ [TokenList Function (new_attrs cc0) (take (Suc n - tidx) (drop tidx ts))]
               @ drop (Suc n) ts"
      let ?p' = "p - (n - tidx)"
      have a: "tidx < ?p'" using lt n(1) by arith
      have b: "?p' \<le> p" by simp
      have "length (take tidx ts) = tidx" using tl by simp
      then have "drop ?p' ?ts' = drop (?p' - Suc tidx) (drop (Suc n) ts)"
        using a drop_mid [of "take tidx ts" ?p'] by simp
      also have "\<dots> = drop p ts"
      proof -
        have "?p' - Suc tidx + Suc n = p" using lt n(1) by arith
        then show ?thesis by (simp add: add.commute)
      qed
      finally have "drop ?p' ?ts' = drop p ts" .
      with s a b show ?thesis by blast
    qed
  qed
qed

lemma functions_loop_wraps:
  "tidx \<le> p \<Longrightarrow> drop p ts = b # rest \<Longrightarrow> ttype_of b = Some T_Builtin \<Longrightarrow>
   find_fwd (not_skipped True True) 0 rest = Some (m, par) \<Longrightarrow> isinstance par [Parenthesis] \<Longrightarrow>
     \<exists>r i'. functions_loop cc0 ts tidx = Inr r \<and> i' \<le> p \<and> i' < length r \<and>
            r ! i' = TokenList Function (new_attrs cc0) (b # take (Suc m) rest)"
proof (induction cc0 ts tidx arbitrary: p rule: functions_loop.induct)
  case (1 cc0 ts tidx)
  from drop_Cons_nth [OF "1.prems"(2)] have pl: "p < length ts" and pb: "ts ! p = b" by auto
  show ?case
  proof (cases "tidx = p")
    case True
    from token_next_suffix [OF "1.prems"(2) "1.prems"(4)]
    have tn: "token_next ts p = Some (Suc (p + m), par)" .
    from token_next_Some [OF tn] have ql: "Suc (p + m) < length ts" by simp
    have ng: "\<not> isinstance (ts ! p) [Function]" using pb "1.prems"(3) builtin_not_group by blast
    have "group_tokens cc0 ts Function p (int (Suc (p + m))) False =
        Inr (take p ts @ [TokenList Function (new_attrs cc0) (take (Suc (Suc (p + m)) - p) (drop p ts))]
             @ drop (Suc (Suc (p + m))) ts)"
      using ql ng by (intro group_tokens_new) simp_all
    moreover have "take (Suc (Suc (p + m)) - p) (drop p ts) = b # take (Suc m) rest"
    proof -
      have "Suc (Suc (p + m)) - p = Suc (Suc m)" by arith
      then show ?thesis using "1.prems"(2) by simp
    qed
    ultimately have s: "functions_step cc0 ts p =
        Inr (take p ts @ [TokenList Function (new_attrs cc0) (b # take (Suc m) rest)]
             @ drop (Suc (Suc (p + m))) ts)"
      using tn "1.prems"(5) by (simp add: functions_step_def)
    let ?ts' = "take p ts @ [TokenList Function (new_attrs cc0) (b # take (Suc m) rest)]
             @ drop (Suc (Suc (p + m))) ts"
    from functions_loop_after_step [OF s] obtain r where
      r: "functions_loop cc0 ts p = Inr r" "take (Suc p) r = take (Suc p) ?ts'"
         "p < length ?ts' \<longrightarrow> p < length r" by blast
    have lp: "p < length ?ts'" using pl by simp
    then have lr: "p < length r" using r(3) by simp
    have "r ! p = take (Suc p) r ! p" by (rule nth_take [symmetric]) simp
    also have "\<dots> = take (Suc p) ?ts' ! p" using r(2) by simp
    also have "\<dots> = ?ts' ! p" by (rule nth_take) simp
    also have "\<dots> = TokenList Function (new_attrs cc0) (b # take (Suc m) rest)"
      using pl by (simp add: nth_append)
    finally have "r ! p = TokenList Function (new_attrs cc0) (b # take (Suc m) rest)" .
    with r(1) lr True show ?thesis by blast
  next
    case False
    then have lt: "tidx < p" using "1.prems"(1) by simp
    from functions_step_shift [OF lt "1.prems"(2) "1.prems"(3), of cc0]
    obtain ts' p' where s: "functions_step cc0 ts tidx = Inr ts'" and p': "tidx < p'" "p' \<le> p"
      and d: "drop p' ts' = drop p ts" by blast
    from d "1.prems"(2) have d': "drop p' ts' = b # rest" by simp
    from drop_Cons_nth [OF d'] have pl': "p' < length ts'" and pb': "ts' ! p' = b" by auto
    have "imt (ts' ! p') (by_t (TOne T_Name))" using pb' "1.prems"(3) by (simp add: builtin_is_name)
    from token_next_by_exists [OF p'(1) pl' this]
    obtain n tk where nb: "token_next_by ts' (by_t (TOne T_Name)) tidx = Some (n, tk)" and np: "n \<le> p'"
      by blast
    from "1.IH" [OF s nb refl np d' "1.prems"(3) "1.prems"(4) "1.prems"(5)]
    obtain r i' where r: "functions_loop cc0 ts' n = Inr r" "i' \<le> p'" "i' < length r"
      "r ! i' = TokenList Function (new_attrs cc0) (b # take (Suc m) rest)" by blast
    have "functions_loop cc0 ts tidx = functions_loop cc0 ts' n"
      using s nb by (simp add: functions_loop.simps [of cc0 ts tidx])
    with r p'(2) show ?thesis by (metis le_trans)
  qed
qed

chapter \<open>Verified properties\<close>

section \<open>Properties of the newline token\<close>

text \<open>
  C4 (as stated): \<open>nl(delta)\<close> has lexical type \<open>Whitespace.Newline\<close>. The source
  builds the token with \<open>T.Whitespace\<close>; at the default walker state and delta 0
  the type is not \<open>Whitespace.Newline\<close>.
\<close>

theorem nl_type_counterexample:
  "ttype_of (nl \<lparr>w_n = [CHR 0x0A], w_offset = 0, w_indent = 0, w_width = 0, w_char = '' ''\<rparr> 0)
     \<noteq> Some T_Newline"
  by (simp add: nl_def T_Newline_def T_Whitespace_def)

text \<open>
  C4 (amended): for every walker state and every delta, \<open>nl(delta)\<close> is a token of
  lexical type \<open>Whitespace\<close> whose value is the newline string followed by
  \<open>char\<close> repeated \<open>max(0, offset + indent*width + delta)\<close> times.
\<close>

theorem nl_token:
  "nl w d = Token T_Whitespace
     (w_n w @ concat (replicate (nat (max 0 (w_offset w + w_indent w * w_width w + d))) (w_char w)))"
  by (simp add: nl_def str_times_def leading_ws_def)

section \<open>Properties of \<open>group_values\<close>\<close>

text \<open>
  C10: when a \<open>VALUES\<close> keyword is among the children (the first one at index
  \<open>s\<close>), \<open>group_values\<close> builds one \<open>Values\<close> group from that keyword to the
  last \<open>Parenthesis\<close> sibling after it (index \<open>e\<close>), whatever lies between;
  when no \<open>Parenthesis\<close> follows the keyword, or there is no \<open>VALUES\<close> keyword,
  the children are returned as they are, with no error.
\<close>

theorem group_values_spec:
  "((\<forall>k < length ts. \<not> match (ts ! k) M_VALUES) \<longrightarrow> group_values cc0 ts = Inr ts) \<and>
   (s < length ts \<and> match (ts ! s) M_VALUES \<and> (\<forall>k < s. \<not> match (ts ! k) M_VALUES) \<longrightarrow>
      ((\<forall>j. s < j \<and> j < length ts \<longrightarrow> \<not> isinstance (ts ! j) [Parenthesis]) \<longrightarrow>
          group_values cc0 ts = Inr ts) \<and>
      (s < e \<and> e < length ts \<and> isinstance (ts ! e) [Parenthesis] \<and>
       (\<forall>j. e < j \<and> j < length ts \<longrightarrow> \<not> isinstance (ts ! j) [Parenthesis]) \<longrightarrow>
          group_values cc0 ts =
            Inr (take s ts @
                 [TokenList Values (new_attrs cc0) (take (Suc e - s) (drop s ts))] @
                 drop (Suc e) ts)))"
proof (intro conjI impI)
  assume "\<forall>k < length ts. \<not> match (ts ! k) M_VALUES"
  then have "token_first_by ts (by_m [M_VALUES]) = None"
    by (intro token_first_by_absent) (simp add: imt_by_m_single)
  then show "group_values cc0 ts = Inr ts" by (simp add: group_values_def)
next
  assume a: "s < length ts \<and> match (ts ! s) M_VALUES \<and> (\<forall>k < s. \<not> match (ts ! k) M_VALUES)"
  assume b: "\<forall>j. s < j \<and> j < length ts \<longrightarrow> \<not> isinstance (ts ! j) [Parenthesis]"
  from a have f: "token_first_by ts (by_m [M_VALUES]) = Some (s, ts ! s)"
    by (intro token_first_by_first) (simp_all add: imt_by_m_single)
  from a have leaf: "\<not> isinstance (ts ! s) [Parenthesis]"
    by (cases "ts ! s") (simp_all add: M_VALUES_def)
  from values_scan_none [OF b, of "ts ! s" "- 1"] leaf
  have "values_scan ts s (ts ! s) (- 1) = - 1" by simp
  then show "group_values cc0 ts = Inr ts" using f by (simp add: group_values_def)
next
  assume a: "s < length ts \<and> match (ts ! s) M_VALUES \<and> (\<forall>k < s. \<not> match (ts ! k) M_VALUES)"
  assume b: "s < e \<and> e < length ts \<and> isinstance (ts ! e) [Parenthesis] \<and>
             (\<forall>j. e < j \<and> j < length ts \<longrightarrow> \<not> isinstance (ts ! j) [Parenthesis])"
  from a have f: "token_first_by ts (by_m [M_VALUES]) = Some (s, ts ! s)"
    by (intro token_first_by_first) (simp_all add: imt_by_m_single)
  from a have leaf: "\<not> isinstance (ts ! s) [Values]"
    by (cases "ts ! s") (simp_all add: M_VALUES_def)
  from b have "values_scan ts s (ts ! s) (- 1) = int e"
    by (intro values_scan_last) simp_all
  moreover from b leaf have "group_tokens cc0 ts Values s (int e) True =
      Inr (take s ts @ [TokenList Values (new_attrs cc0) (take (Suc e - s) (drop s ts))] @ drop (Suc e) ts)"
    by (intro group_tokens_new) simp_all
  ultimately show "group_values cc0 ts =
      Inr (take s ts @ [TokenList Values (new_attrs cc0) (take (Suc e - s) (drop s ts))] @ drop (Suc e) ts)"
    using f by (simp add: group_values_def)
qed

theorem group_values_spec_witness:
  "group_values 0
     [Token T_Name ''t'', Token T_Keyword ''values'',
      TokenList Parenthesis (new_attrs 0) [Token T_Punctuation ''('', Token T_Punctuation '')''],
      Token T_Punctuation '','',
      TokenList Parenthesis (new_attrs 0) [Token T_Punctuation ''('', Token T_Punctuation '')''],
      Token T_Punctuation '';'']
   = Inr [Token T_Name ''t'',
          TokenList Values (new_attrs 0)
            [Token T_Keyword ''values'',
             TokenList Parenthesis (new_attrs 0) [Token T_Punctuation ''('', Token T_Punctuation '')''],
             Token T_Punctuation '','',
             TokenList Parenthesis (new_attrs 0) [Token T_Punctuation ''('', Token T_Punctuation '')'']],
          Token T_Punctuation '';'']
   \<and> group_values 0 [Token T_Keyword ''VALUES'', Token T_Name ''x''] =
       Inr [Token T_Keyword ''VALUES'', Token T_Name ''x'']
   \<and> group_values 0 [Token T_Name ''x''] = Inr [Token T_Name ''x'']"
proof -
  let ?P = "TokenList Parenthesis (new_attrs 0) [Token T_Punctuation ''('', Token T_Punctuation '')'']"
  let ?ts = "[Token T_Name ''t'', Token T_Keyword ''values'', ?P, Token T_Punctuation '','', ?P,
              Token T_Punctuation '';'']"
  have kw: "match (Token T_Keyword ''values'') M_VALUES"
    by code_simp
  have kw2: "match (Token T_Keyword ''VALUES'') M_VALUES"
    by code_simp
  have nm: "\<And>v. \<not> match (Token T_Name v) M_VALUES"
    by (simp add: M_VALUES_def ttype_defs)
  have h1: "(1::nat) < length ?ts \<and> match (?ts ! 1) M_VALUES \<and> (\<forall>k < 1. \<not> match (?ts ! k) M_VALUES)"
    using kw nm by simp
  have h2: "(1::nat) < 4 \<and> 4 < length ?ts \<and> isinstance (?ts ! 4) [Parenthesis] \<and>
            (\<forall>j. 4 < j \<and> j < length ?ts \<longrightarrow> \<not> isinstance (?ts ! j) [Parenthesis])"
  proof (intro conjI allI impI)
    fix j assume "4 < j \<and> j < length ?ts"
    then have "j = 5" by simp
    then show "\<not> isinstance (?ts ! j) [Parenthesis]" by simp
  qed simp_all
  from group_values_spec [of ?ts 0 1 4] h1 h2
  have r1: "group_values 0 ?ts =
      Inr (take 1 ?ts @ [TokenList Values (new_attrs 0) (take (Suc 4 - 1) (drop 1 ?ts))] @ drop (Suc 4) ?ts)"
    by blast
  let ?us = "[Token T_Keyword ''VALUES'', Token T_Name ''x'']"
  have g1: "(0::nat) < length ?us \<and> match (?us ! 0) M_VALUES \<and> (\<forall>k < 0. \<not> match (?us ! k) M_VALUES)"
    using kw2 by simp
  have g2: "\<forall>j. 0 < j \<and> j < length ?us \<longrightarrow> \<not> isinstance (?us ! j) [Parenthesis]"
  proof (intro allI impI)
    fix j assume "0 < j \<and> j < length ?us"
    then have "j = 1" by simp
    then show "\<not> isinstance (?us ! j) [Parenthesis]" by simp
  qed
  from group_values_spec [of ?us 0 0 0] g1 g2 have r2: "group_values 0 ?us = Inr ?us" by blast
  have "\<forall>k < length [Token T_Name ''x'']. \<not> match ([Token T_Name ''x''] ! k) M_VALUES"
    using nm by simp
  with group_values_spec [of "[Token T_Name ''x'']" 0 0 0]
  have r3: "group_values 0 [Token T_Name ''x''] = Inr [Token T_Name ''x'']" by blast
  from r1 have r1': "group_values 0 ?ts = Inr [Token T_Name ''t'',
          TokenList Values (new_attrs 0) [Token T_Keyword ''values'', ?P, Token T_Punctuation '','', ?P],
          Token T_Punctuation '';'']"
    by (simp add: numeral_eq_Suc)
  from r1' r2 r3 show ?thesis by simp
qed

section \<open>Properties of \<open>group_functions\<close>\<close>

text \<open>
  C6 (as stated): no grouping at all happens on a token list that holds both a
  token valued \<open>CREATE\<close> and a token valued \<open>TABLE\<close>. The decorator runs the pass
  on every sublist first, and each list looks for the two words among its own
  children only: in \<open>CREATE TABLE (varchar())\<close> the column type inside the
  parenthesis is still wrapped into a \<open>Function\<close>.
\<close>

theorem group_functions_create_table_counterexample:
  "group_functions 0
     (TokenList Statement (new_attrs 0)
        [Token T_DDL ''CREATE'', Token T_Keyword ''TABLE'',
         TokenList Parenthesis (new_attrs 0)
           [Token T_Punctuation ''('', Token T_Builtin ''varchar'',
            TokenList Parenthesis (new_attrs 0) [Token T_Punctuation ''('', Token T_Punctuation '')''],
            Token T_Punctuation '')'']])
   = Inr (TokenList Statement (new_attrs 0)
        [Token T_DDL ''CREATE'', Token T_Keyword ''TABLE'',
         TokenList Parenthesis (new_attrs 0)
           [Token T_Punctuation ''('',
            TokenList Function (new_attrs 0)
              [Token T_Builtin ''varchar'',
               TokenList Parenthesis (new_attrs 0) [Token T_Punctuation ''('', Token T_Punctuation '')'']],
            Token T_Punctuation '')'']])"
  by code_simp

text \<open>
  C6 (amended): among the children \<open>ts\<close> of one token list, the body of
  \<open>group_functions\<close> groups nothing when \<open>ts\<close> holds both a token valued
  \<open>CREATE\<close> and a token valued \<open>TABLE\<close>; otherwise every \<open>Name.Builtin\<close> token
  followed, whitespace skipped, by a \<open>Parenthesis\<close> ends up wrapped with it in a
  \<open>Function\<close> group. The pass itself runs the body on every sublist that is
  not a \<open>Function\<close> first, each with its own children, and then on the list.
\<close>

theorem group_functions_spec:
  "((\<exists>x \<in> set ts. value_of x = ''CREATE'') \<and> (\<exists>x \<in> set ts. value_of x = ''TABLE'') \<longrightarrow>
      group_functions_body cc0 ts = Inr ts) \<and>
   (\<not> ((\<exists>x \<in> set ts. value_of x = ''CREATE'') \<and> (\<exists>x \<in> set ts. value_of x = ''TABLE'')) \<and>
    i < j \<and> j < length ts \<and> ttype_of (ts ! i) = Some T_Builtin \<and>
    isinstance (ts ! j) [Parenthesis] \<and> (\<forall>k. i < k \<and> k < j \<longrightarrow> is_whitespace (ts ! k)) \<longrightarrow>
      (\<exists>r i'. group_functions_body cc0 ts = Inr r \<and> i' \<le> i \<and> i' < length r \<and>
         r ! i' = TokenList Function (new_attrs cc0) (take (Suc j - i) (drop i ts)))) \<and>
   group_functions cc0 (TokenList k a ts) =
     (case map_err (\<lambda>sgroup. if is_group sgroup \<and> \<not> isinstance sgroup [Function]
                              then group_functions cc0 sgroup else Inr sgroup) ts of
        Inl e \<Rightarrow> Inl e
      | Inr ts' \<Rightarrow> (case group_functions_body cc0 ts' of
                      Inl e \<Rightarrow> Inl e
                    | Inr ts'' \<Rightarrow> Inr (TokenList k a ts'')))"
proof (intro conjI impI)
  assume "(\<exists>x \<in> set ts. value_of x = ''CREATE'') \<and> (\<exists>x \<in> set ts. value_of x = ''TABLE'')"
  then show "group_functions_body cc0 ts = Inr ts" by (simp add: group_functions_body_def)
next
  assume h: "\<not> ((\<exists>x \<in> set ts. value_of x = ''CREATE'') \<and> (\<exists>x \<in> set ts. value_of x = ''TABLE'')) \<and>
    i < j \<and> j < length ts \<and> ttype_of (ts ! i) = Some T_Builtin \<and>
    isinstance (ts ! j) [Parenthesis] \<and> (\<forall>k. i < k \<and> k < j \<longrightarrow> is_whitespace (ts ! k))"
  then have ij: "i < j" and jl: "j < length ts" and bi: "ttype_of (ts ! i) = Some T_Builtin"
    and pj: "isinstance (ts ! j) [Parenthesis]"
    and ws: "\<forall>k. i < k \<and> k < j \<longrightarrow> is_whitespace (ts ! k)" by auto
  let ?rest = "drop (Suc i) ts"
  let ?m = "j - Suc i"
  have il: "i < length ts" using ij jl by simp
  have d: "drop i ts = ts ! i # ?rest" using il by (simp add: Cons_nth_drop_Suc)
  have m1: "?m < length ?rest" using ij jl by simp
  have m2: "?rest ! ?m = ts ! j" using ij jl by simp
  have m3: "\<forall>k < ?m. \<not> not_skipped True True (?rest ! k)"
  proof (intro allI impI)
    fix k assume k: "k < ?m"
    then have "i < Suc i + k \<and> Suc i + k < j" by arith
    with ws have "is_whitespace (ts ! (Suc i + k))" by blast
    moreover have "?rest ! k = ts ! (Suc i + k)" using k jl by simp
    ultimately show "\<not> not_skipped True True (?rest ! k)" by (simp add: not_skipped_def)
  qed
  have "not_skipped True True (?rest ! ?m)" using m2 pj by (simp add: paren_not_skipped)
  from find_fwd_first [OF m1 this m3, of 0]
  have ff: "find_fwd (not_skipped True True) 0 ?rest = Some (?m, ts ! j)" using m2 by simp
  have im: "imt (ts ! i) (by_t (TOne T_Builtin))"
    using bi by (cases "ts ! i") (simp_all add: imt_def by_t_def)
  obtain t0 tk where f: "token_first_by ts (by_t (TOne T_Builtin)) = Some (t0, tk)" and t0: "t0 \<le> i"
  proof (cases "token_first_by ts (by_t (TOne T_Builtin))")
    case None
    from token_first_by_None [OF None] il im show ?thesis by blast
  next
    case (Some q)
    obtain n tk where q: "q = (n, tk)" by (cases q)
    from token_first_by_Some [OF Some [unfolded q]]
    have "\<forall>k < n. \<not> imt (ts ! k) (by_t (TOne T_Builtin))" by simp
    with im have "n \<le> i" by (metis not_le_imp_less)
    with Some q that show ?thesis by blast
  qed
  from functions_loop_wraps [OF t0 d bi ff pj, of cc0]
  obtain r i' where r: "functions_loop cc0 ts t0 = Inr r" "i' \<le> i" "i' < length r"
    "r ! i' = TokenList Function (new_attrs cc0) (ts ! i # take (Suc ?m) ?rest)" by blast
  have "take (Suc j - i) (drop i ts) = ts ! i # take (Suc ?m) ?rest"
  proof -
    have "Suc j - i = Suc (Suc ?m)" using ij by arith
    then show ?thesis using d by simp
  qed
  moreover have "group_functions_body cc0 ts = functions_loop cc0 ts t0"
  proof -
    from h have "\<not> ((\<exists>x \<in> set ts. value_of x = ''CREATE'') \<and> (\<exists>x \<in> set ts. value_of x = ''TABLE''))"
      by blast
    then show ?thesis using f unfolding group_functions_body_def Let_def by (simp only: if_False option.case prod.case)
  qed
  ultimately show "\<exists>r i'. group_functions_body cc0 ts = Inr r \<and> i' \<le> i \<and> i' < length r \<and>
         r ! i' = TokenList Function (new_attrs cc0) (take (Suc j - i) (drop i ts))"
    using r by auto
next
  show "group_functions cc0 (TokenList k a ts) =
     (case map_err (\<lambda>sgroup. if is_group sgroup \<and> \<not> isinstance sgroup [Function]
                              then group_functions cc0 sgroup else Inr sgroup) ts of
        Inl e \<Rightarrow> Inl e
      | Inr ts' \<Rightarrow> (case group_functions_body cc0 ts' of
                      Inl e \<Rightarrow> Inl e
                    | Inr ts'' \<Rightarrow> Inr (TokenList k a ts'')))"
    unfolding group_functions_def by simp
qed

theorem group_functions_spec_witness:
  "group_functions_body 0 [Token T_DDL ''CREATE'', Token T_Keyword ''TABLE'', Token T_Builtin ''int'',
       TokenList Parenthesis (new_attrs 0) []]
     = Inr [Token T_DDL ''CREATE'', Token T_Keyword ''TABLE'', Token T_Builtin ''int'',
       TokenList Parenthesis (new_attrs 0) []]
   \<and> (\<exists>r i'. group_functions_body 0
         [Token T_Punctuation '','', Token T_Builtin ''count'', Token T_Whitespace '' '',
          TokenList Parenthesis (new_attrs 0) []] = Inr r \<and> i' \<le> 1 \<and> i' < length r \<and>
         r ! i' = TokenList Function (new_attrs 0)
           [Token T_Builtin ''count'', Token T_Whitespace '' '', TokenList Parenthesis (new_attrs 0) []])"
proof -
  let ?P = "TokenList Parenthesis (new_attrs 0) []"
  let ?ts = "[Token T_DDL ''CREATE'', Token T_Keyword ''TABLE'', Token T_Builtin ''int'', ?P]"
  let ?us = "[Token T_Punctuation '','', Token T_Builtin ''count'', Token T_Whitespace '' '', ?P]"
  have h1: "(\<exists>x \<in> set ?ts. value_of x = ''CREATE'') \<and> (\<exists>x \<in> set ?ts. value_of x = ''TABLE'')"
    by simp
  from group_functions_spec [of ?ts 0 0 0 Statement "new_attrs 0"] h1
  have r1: "group_functions_body 0 ?ts = Inr ?ts" by blast
  have ws: "\<forall>k. (1::nat) < k \<and> k < 3 \<longrightarrow> is_whitespace (?us ! k)"
  proof (intro allI impI)
    fix k :: nat assume "1 < k \<and> k < 3"
    then have "k = 2" by simp
    then show "is_whitespace (?us ! k)" by (simp add: is_whitespace_def ttype_defs)
  qed
  have h2: "\<not> ((\<exists>x \<in> set ?us. value_of x = ''CREATE'') \<and> (\<exists>x \<in> set ?us. value_of x = ''TABLE'')) \<and>
    (1::nat) < 3 \<and> 3 < length ?us \<and> ttype_of (?us ! 1) = Some T_Builtin \<and>
    isinstance (?us ! 3) [Parenthesis] \<and> (\<forall>k. 1 < k \<and> k < 3 \<longrightarrow> is_whitespace (?us ! k))"
    using ws by simp
  from group_functions_spec [of ?us 0 1 3 Statement "new_attrs 0"] h2
  have "\<exists>r i'. group_functions_body 0 ?us = Inr r \<and> i' \<le> 1 \<and> i' < length r \<and>
         r ! i' = TokenList Function (new_attrs 0) (take (Suc 3 - 1) (drop 1 ?us))"
    by blast
  then have r2: "\<exists>r i'. group_functions_body 0 ?us = Inr r \<and> i' \<le> 1 \<and> i' < length r \<and>
         r ! i' = TokenList Function (new_attrs 0)
           [Token T_Builtin ''count'', Token T_Whitespace '' '', ?P]"
    by (simp add: numeral_eq_Suc)
  from r1 r2 show ?thesis by simp
qed

end
